theory Spec2Isabelle
  imports Main "HOL-Library.AList"
begin

section \<open>JavaScript values used by the chat server\<close>

text \<open>
  The server (server/server.js) keeps three plain JavaScript objects, \<open>users\<close>,
  \<open>messages\<close> and \<open>typingUsers\<close>, and one message record per stored message.
  Objects are modelled as association lists in insertion order, which is the order of
  \<open>for ... in\<close> and of \<open>Object.values\<close> for string keys.  Socket ids are produced
  by the transport and are plain strings.
\<close>

type_synonym sid = string

text \<open>A JavaScript number holding a counter: a natural number, or \<open>NaN\<close>.\<close>

datatype jsnum = Num nat | NaN

text \<open>
  Reading \<open>obj[key]\<close> on an object literal finds the object's own property, or else a
  member inherited from \<open>Object.prototype\<close> (a function, or the prototype object itself
  for \<open>__proto__\<close>), or else \<open>undefined\<close>.
\<close>

datatype 'a js_prop = Own 'a | Inherited | Undefined

definition object_prototype_keys :: "string list" where
  "object_prototype_keys =
     [''constructor'', ''__proto__'', ''hasOwnProperty'', ''isPrototypeOf'',
      ''propertyIsEnumerable'', ''toLocaleString'', ''toString'', ''valueOf'',
      ''__defineGetter__'', ''__defineSetter__'', ''__lookupGetter__'',
      ''__lookupSetter__'']"

definition js_get :: "(string \<times> 'a) list \<Rightarrow> string \<Rightarrow> 'a js_prop" where
  "js_get obj key =
     (case map_of obj key of
        Some v \<Rightarrow> Own v
      | None \<Rightarrow> if key \<in> set object_prototype_keys then Inherited else Undefined)"

text \<open>
  \<open>obj[key] = v\<close> for a number \<open>v\<close>: an existing key keeps its place, a new key goes to
  the end; assigning a number to \<open>__proto__\<close> is ignored by the setter.
\<close>

definition js_set :: "(string \<times> jsnum) list \<Rightarrow> string \<Rightarrow> jsnum \<Rightarrow> (string \<times> jsnum) list" where
  "js_set obj key v = (if key = ''__proto__'' then obj else AList.update key v obj)"

text \<open>\<open>!v\<close> for a counter read from an object.\<close>

fun falsy :: "jsnum js_prop \<Rightarrow> bool" where
  "falsy (Own (Num n)) = (n = 0)"
| "falsy (Own NaN) = True"
| "falsy Inherited = False"
| "falsy Undefined = True"

text \<open>The new value of \<open>v++\<close>: a function or object converts to \<open>NaN\<close>.\<close>

fun incr :: "jsnum js_prop \<Rightarrow> jsnum" where
  "incr (Own (Num n)) = Num (n + 1)"
| "incr (Own NaN) = NaN"
| "incr Inherited = NaN"
| "incr Undefined = NaN"

text \<open>\<open>Array.prototype.findIndex\<close>; \<open>None\<close> stands for \<open>-1\<close>.\<close>

fun findIndex :: "('a \<Rightarrow> bool) \<Rightarrow> 'a list \<Rightarrow> nat option" where
  "findIndex P [] = None"
| "findIndex P (x # xs) = (if P x then Some 0 else map_option Suc (findIndex P xs))"

text \<open>
  \<open>Array.prototype.slice(start, end)\<close> on integer arguments: a negative index counts
  from the end of the array, and both indices are clamped to \<open>[0, length]\<close>.
\<close>

definition js_slice :: "'a list \<Rightarrow> int \<Rightarrow> int \<Rightarrow> 'a list" where
  "js_slice xs start end =
     (let len = int (length xs);
          k = (if start < 0 then max (len + start) 0 else min start len);
          final = (if end < 0 then max (len + end) 0 else min end len)
      in take (nat (final - k)) (drop (nat k) xs))"

text \<open>\<open>name || 'general'\<close> for an optional string: absent and empty are both falsy.\<close>

definition room_or_default :: "string option \<Rightarrow> string" where
  "room_or_default r =
     (case r of None \<Rightarrow> ''general'' | Some x \<Rightarrow> if x = [] then ''general'' else x)"

section \<open>Data model\<close>

record user =
  u_username :: string
  u_id :: sid
  u_currentRoom :: string

record typing_entry =
  t_username :: string
  t_room :: string

text \<open>
  A stored or delivered message.  A field the source does not set on a message is
  \<open>None\<close> (\<open>False\<close> for the two flags).  \<open>m_messageId\<close> is the client's temporary id
  copied by the object spread in \<open>send_message\<close>.
\<close>

record message =
  m_id :: nat
  m_sender :: string
  m_senderId :: sid
  m_message :: "string option"
  m_messageId :: "nat option"
  m_timestamp :: string
  m_room :: "string option"
  m_reactions :: "(string \<times> jsnum) list option"
  m_readBy :: "string list option"
  m_isPrivate :: bool
  m_to :: "string option"
  m_isFile :: bool
  m_file :: "string option"
  m_fileName :: "string option"
  m_fileType :: "string option"

record state =
  users :: "(sid \<times> user) list"
  messages :: "(string \<times> message list) list"
  typingUsers :: "(sid \<times> typing_entry) list"

definition rooms :: "string list" where
  "rooms = [''general'', ''random'', ''help'']"

text \<open>The state after the module has been loaded: every configured room has an empty log.\<close>

definition init :: state where
  "init = \<lparr>users = [], messages = map (\<lambda>room. (room, [])) rooms, typingUsers = []\<rparr>"

text \<open>
  The two clock readings of a handler: \<open>Date.now()\<close> in milliseconds and
  \<open>new Date().toISOString()\<close>.
\<close>

record clock =
  now :: nat
  iso :: string

subsection \<open>Inbound payloads\<close>

record message_data =
  md_message :: string
  md_room :: "string option"
  md_messageId :: "nat option"

record typing_data =
  td_isTyping :: bool
  td_room :: "string option"

record private_data =
  pd_to :: string
  pd_message :: string
  pd_messageId :: "nat option"

record file_data =
  fd_file :: string
  fd_fileName :: string
  fd_fileType :: string
  fd_room :: "string option"

subsection \<open>Outbound effects\<close>

text \<open>
  \<open>io.emit\<close> reaches every connected socket, \<open>socket.to(room).emit\<close> every socket in
  the room except the calling one, \<open>socket.emit\<close> the calling socket only.
\<close>

datatype target = ToAll | ToRoomExcept string sid | ToSocket sid

datatype ack = MessageAck bool nat | LoadAck bool "message list" bool

datatype out_event =
    User_list "user list"
  | User_joined string sid
  | User_left string sid
  | Receive_message message
  | Receive_file message
  | Private_message message
  | Typing_users "string list" string
  | Room_messages "message list"
  | Room_messages_inherited
  | Reaction_added nat string "jsnum js_prop"
  | Message_read nat string

datatype effect =
    Callback ack
  | Emit target out_event
  | Join sid string
  | Leave sid string

datatype error = TypeError

section \<open>Event handlers\<close>

text \<open>\<open>users[socket.id]?.username || 'Anonymous'\<close>\<close>

definition sender_name :: "(sid \<times> user) list \<Rightarrow> sid \<Rightarrow> string" where
  "sender_name us socket_id =
     (case map_of us socket_id of
        None \<Rightarrow> ''Anonymous''
      | Some u \<Rightarrow> if u_username u = [] then ''Anonymous'' else u_username u)"

text \<open>\<open>log.push(message); if (log.length > 100) log.shift();\<close>\<close>

definition append_log :: "message list \<Rightarrow> message \<Rightarrow> message list" where
  "append_log log message =
     (let pushed = log @ [message] in if length pushed > 100 then tl pushed else pushed)"

definition user_join :: "state \<Rightarrow> sid \<Rightarrow> string \<Rightarrow> state \<times> effect list" where
  "user_join s socket_id username =
     (let us = AList.update socket_id
                 \<lparr>u_username = username, u_id = socket_id, u_currentRoom = ''general''\<rparr> (users s)
      in (s\<lparr>users := us\<rparr>,
          [Join socket_id ''general'',
           Emit ToAll (User_list (map snd us)),
           Emit ToAll (User_joined username socket_id)]))"

definition text_message :: "state \<Rightarrow> sid \<Rightarrow> message_data \<Rightarrow> clock \<Rightarrow> message" where
  "text_message s socket_id messageData clk =
     \<lparr>m_id = now clk,
      m_sender = sender_name (users s) socket_id,
      m_senderId = socket_id,
      m_message = Some (md_message messageData),
      m_messageId = md_messageId messageData,
      m_timestamp = iso clk,
      m_room = Some (room_or_default (md_room messageData)),
      m_reactions = Some [],
      m_readBy = Some [],
      m_isPrivate = False, m_to = None,
      m_isFile = False, m_file = None, m_fileName = None, m_fileType = None\<rparr>"

definition send_message ::
  "state \<Rightarrow> sid \<Rightarrow> message_data \<Rightarrow> clock \<Rightarrow> bool \<Rightarrow> error + state \<times> effect list" where
  "send_message s socket_id messageData clk callback =
     (let room = room_or_default (md_room messageData);
          messageId = now clk;
          message = text_message s socket_id messageData clk
      in case js_get (messages s) room of
           Own log \<Rightarrow>
             Inr (s\<lparr>messages := AList.update room (append_log log message) (messages s)\<rparr>,
                  (if callback then [Callback (MessageAck True messageId)] else [])
                  @ [Emit (ToRoomExcept room socket_id) (Receive_message message)])
         | Inherited \<Rightarrow> Inl TypeError
         | Undefined \<Rightarrow> Inl TypeError)"

definition typing :: "state \<Rightarrow> sid \<Rightarrow> typing_data \<Rightarrow> state \<times> effect list" where
  "typing s socket_id data =
     (case map_of (users s) socket_id of
        None \<Rightarrow> (s, [])
      | Some u \<Rightarrow>
          (let username = u_username u;
               room = room_or_default (td_room data);
               tu = (if td_isTyping data
                     then AList.update socket_id \<lparr>t_username = username, t_room = room\<rparr>
                            (typingUsers s)
                     else AList.delete socket_id (typingUsers s));
               roomTypingUsers = map t_username (filter (\<lambda>e. t_room e = room) (map snd tu))
           in (s\<lparr>typingUsers := tu\<rparr>,
               [Emit (ToRoomExcept room socket_id) (Typing_users roomTypingUsers room)])))"

definition private_message_data :: "state \<Rightarrow> sid \<Rightarrow> private_data \<Rightarrow> clock \<Rightarrow> message" where
  "private_message_data s socket_id p clk =
     \<lparr>m_id = now clk,
      m_sender = sender_name (users s) socket_id,
      m_senderId = socket_id,
      m_message = Some (pd_message p),
      m_messageId = None,
      m_timestamp = iso clk,
      m_room = None,
      m_reactions = None,
      m_readBy = None,
      m_isPrivate = True, m_to = Some (pd_to p),
      m_isFile = False, m_file = None, m_fileName = None, m_fileType = None\<rparr>"

definition private_message ::
  "state \<Rightarrow> sid \<Rightarrow> private_data \<Rightarrow> clock \<Rightarrow> bool \<Rightarrow> state \<times> effect list" where
  "private_message s socket_id p clk callback =
     (let finalMessageId = now clk;
          messageData = private_message_data s socket_id p clk
      in (s,
          (if callback then [Callback (MessageAck True finalMessageId)] else [])
          @ [Emit (ToRoomExcept (pd_to p) socket_id) (Private_message messageData)]))"

definition join_room :: "state \<Rightarrow> sid \<Rightarrow> string \<Rightarrow> state \<times> effect list" where
  "join_room s socket_id roomName =
     (case map_of (users s) socket_id of
        None \<Rightarrow> (s, [])
      | Some u \<Rightarrow>
          (let previousRoom = u_currentRoom u
           in (s\<lparr>users := AList.update socket_id (u\<lparr>u_currentRoom := roomName\<rparr>) (users s)\<rparr>,
               [Leave socket_id previousRoom,
                Join socket_id roomName,
                Emit (ToSocket socket_id)
                  (case js_get (messages s) roomName of
                     Own log \<Rightarrow> Room_messages log
                   | Inherited \<Rightarrow> Room_messages_inherited
                   | Undefined \<Rightarrow> Room_messages [])])))"

definition file_message :: "state \<Rightarrow> sid \<Rightarrow> file_data \<Rightarrow> clock \<Rightarrow> message" where
  "file_message s socket_id fileData clk =
     \<lparr>m_id = now clk,
      m_sender = sender_name (users s) socket_id,
      m_senderId = socket_id,
      m_message = None,
      m_messageId = None,
      m_timestamp = iso clk,
      m_room = Some (room_or_default (fd_room fileData)),
      m_reactions = None,
      m_readBy = None,
      m_isPrivate = False, m_to = None,
      m_isFile = True,
      m_file = Some (fd_file fileData),
      m_fileName = Some (fd_fileName fileData),
      m_fileType = Some (fd_fileType fileData)\<rparr>"

definition send_file ::
  "state \<Rightarrow> sid \<Rightarrow> file_data \<Rightarrow> clock \<Rightarrow> error + state \<times> effect list" where
  "send_file s socket_id fileData clk =
     (let room = room_or_default (fd_room fileData);
          messageData = file_message s socket_id fileData clk
      in case js_get (messages s) room of
           Own log \<Rightarrow>
             Inr (s\<lparr>messages := AList.update room (append_log log messageData) (messages s)\<rparr>,
                  [Emit (ToRoomExcept room socket_id) (Receive_file messageData),
                   Emit (ToSocket socket_id) (Receive_file messageData)])
         | Inherited \<Rightarrow> Inl TypeError
         | Undefined \<Rightarrow> Inl TypeError)"

text \<open>
  The body of the \<open>if (messageIndex !== -1)\<close> branch of \<open>add_reaction\<close>, on the message
  found: the reaction table is created when absent, the counter is initialised to 0
  when its current value is falsy, and then incremented.
\<close>

definition react :: "message \<Rightarrow> string \<Rightarrow> message" where
  "react message reaction =
     (let r0 = (case m_reactions message of None \<Rightarrow> [] | Some r \<Rightarrow> r);
          r1 = (if falsy (js_get r0 reaction) then js_set r0 reaction (Num 0) else r0);
          r2 = js_set r1 reaction (incr (js_get r1 reaction))
      in message\<lparr>m_reactions := Some r2\<rparr>)"

definition reaction_count :: "message \<Rightarrow> string \<Rightarrow> jsnum js_prop" where
  "reaction_count message reaction =
     js_get (case m_reactions message of None \<Rightarrow> [] | Some r \<Rightarrow> r) reaction"

text \<open>The loop \<open>for (const room in messages)\<close> of \<open>add_reaction\<close>, leaving at the first match.\<close>

fun add_reaction_rooms ::
  "(string \<times> message list) list \<Rightarrow> nat \<Rightarrow> string \<Rightarrow> (string \<times> message list) list \<times> effect list" where
  "add_reaction_rooms [] messageId reaction = ([], [])"
| "add_reaction_rooms ((room, log) # rest) messageId reaction =
     (case findIndex (\<lambda>msg. m_id msg = messageId) log of
        None \<Rightarrow>
          (let (rest', out) = add_reaction_rooms rest messageId reaction
           in ((room, log) # rest', out))
      | Some messageIndex \<Rightarrow>
          (let message = react (log ! messageIndex) reaction
           in ((room, log[messageIndex := message]) # rest,
               [Emit ToAll (Reaction_added messageId reaction (reaction_count message reaction))])))"

definition add_reaction :: "state \<Rightarrow> sid \<Rightarrow> nat \<Rightarrow> string \<Rightarrow> state \<times> effect list" where
  "add_reaction s socket_id messageId reaction =
     (case map_of (users s) socket_id of
        None \<Rightarrow> (s, [])
      | Some u \<Rightarrow>
          (let (ms, out) = add_reaction_rooms (messages s) messageId reaction
           in (s\<lparr>messages := ms\<rparr>, out)))"

text \<open>The branch of \<open>mark_read\<close> on the message found; the flag says whether it pushed.\<close>

definition read_by :: "message \<Rightarrow> string \<Rightarrow> message \<times> bool" where
  "read_by message username =
     (let rb = (case m_readBy message of None \<Rightarrow> [] | Some l \<Rightarrow> l)
      in if username \<in> set rb then (message\<lparr>m_readBy := Some rb\<rparr>, False)
         else (message\<lparr>m_readBy := Some (rb @ [username])\<rparr>, True))"

fun mark_read_rooms ::
  "(string \<times> message list) list \<Rightarrow> nat \<Rightarrow> string \<Rightarrow> (string \<times> message list) list \<times> effect list" where
  "mark_read_rooms [] messageId username = ([], [])"
| "mark_read_rooms ((room, log) # rest) messageId username =
     (case findIndex (\<lambda>msg. m_id msg = messageId) log of
        None \<Rightarrow>
          (let (rest', out) = mark_read_rooms rest messageId username
           in ((room, log) # rest', out))
      | Some messageIndex \<Rightarrow>
          (let (message, pushed) = read_by (log ! messageIndex) username
           in ((room, log[messageIndex := message]) # rest,
               if pushed then [Emit ToAll (Message_read messageId username)] else [])))"

definition mark_read :: "state \<Rightarrow> sid \<Rightarrow> nat \<Rightarrow> state \<times> effect list" where
  "mark_read s socket_id messageId =
     (case map_of (users s) socket_id of
        None \<Rightarrow> (s, [])
      | Some u \<Rightarrow>
          (let (ms, out) = mark_read_rooms (messages s) messageId (u_username u)
           in (s\<lparr>messages := ms\<rparr>, out)))"

text \<open>
  \<open>load_messages\<close>: \<open>limit\<close> and \<open>offset\<close> default to 20 and 0 when absent.  An inherited
  member has no \<open>slice\<close>, and the acknowledgement is called without a check.
\<close>

definition load_messages ::
  "state \<Rightarrow> string \<Rightarrow> int option \<Rightarrow> int option \<Rightarrow> bool \<Rightarrow> error + state \<times> effect list" where
  "load_messages s room limit_opt offset_opt callback =
     (let limit = (case limit_opt of None \<Rightarrow> 20 | Some l \<Rightarrow> l);
          offset = (case offset_opt of None \<Rightarrow> 0 | Some f \<Rightarrow> f)
      in case js_get (messages s) room of
           Inherited \<Rightarrow> Inl TypeError
         | p \<Rightarrow>
             (let roomMessages = (case p of Own log \<Rightarrow> log | _ \<Rightarrow> []);
                  startIndex = max 0 (int (length roomMessages) - limit - offset);
                  endIndex = int (length roomMessages) - offset;
                  requestedMessages = js_slice roomMessages startIndex endIndex
              in if callback
                 then Inr (s, [Callback (LoadAck True requestedMessages (startIndex > 0))])
                 else Inl TypeError))"

definition disconnect :: "state \<Rightarrow> sid \<Rightarrow> state \<times> effect list" where
  "disconnect s socket_id =
     (let left = (case map_of (users s) socket_id of
                    None \<Rightarrow> []
                  | Some u \<Rightarrow> [Emit ToAll (User_left (u_username u) socket_id)]);
          us = AList.delete socket_id (users s);
          tu = AList.delete socket_id (typingUsers s);
          roomTypingUsers = map t_username (filter (\<lambda>e. t_room e = ''general'') (map snd tu))
      in (s\<lparr>users := us, typingUsers := tu\<rparr>,
          left @ [Emit ToAll (User_list (map snd us)),
                  Emit ToAll (Typing_users roomTypingUsers ''general'')]))"

subsection \<open>The server as a transition system\<close>

datatype event =
    On_user_join sid string
  | On_send_message sid message_data clock bool
  | On_typing sid typing_data
  | On_private_message sid private_data clock bool
  | On_join_room sid string
  | On_send_file sid file_data clock
  | On_add_reaction sid nat string
  | On_mark_read sid nat
  | On_load_messages sid string "int option" "int option" bool
  | On_disconnect sid

fun step :: "state \<Rightarrow> event \<Rightarrow> error + state \<times> effect list" where
  "step s (On_user_join c username) = Inr (user_join s c username)"
| "step s (On_send_message c d clk cb) = send_message s c d clk cb"
| "step s (On_typing c d) = Inr (typing s c d)"
| "step s (On_private_message c d clk cb) = Inr (private_message s c d clk cb)"
| "step s (On_join_room c r) = Inr (join_room s c r)"
| "step s (On_send_file c d clk) = send_file s c d clk"
| "step s (On_add_reaction c i r) = Inr (add_reaction s c i r)"
| "step s (On_mark_read c i) = Inr (mark_read s c i)"
| "step s (On_load_messages c r l f cb) = load_messages s r l f cb"
| "step s (On_disconnect c) = Inr (disconnect s c)"

text \<open>
  Handling a sequence of events.  An exception thrown by a handler is not caught anywhere
  in the server, so the run ends with it.
\<close>

fun run :: "state \<Rightarrow> event list \<Rightarrow> error + state \<times> effect list" where
  "run s [] = Inr (s, [])"
| "run s (e # es) =
     (case step s e of
        Inl err \<Rightarrow> Inl err
      | Inr (s', out) \<Rightarrow>
          (case run s' es of
             Inl err \<Rightarrow> Inl err
           | Inr (s'', out') \<Rightarrow> Inr (s'', out @ out')))"

section \<open>Delivery of emitted events\<close>

text \<open>
  Who receives an emitted event is decided by the transport from its table of room
  members, which is a parameter here: \<open>members room\<close> is the set of sockets currently in
  \<open>room\<close> (every socket is in the room named by its own id), \<open>connected\<close> the set of all
  connected sockets.
\<close>

definition receivers :: "(string \<Rightarrow> sid set) \<Rightarrow> sid set \<Rightarrow> target \<Rightarrow> sid set" where
  "receivers members connected t =
     (case t of
        ToAll \<Rightarrow> connected
      | ToRoomExcept room c \<Rightarrow> members room - {c}
      | ToSocket c \<Rightarrow> {c})"

text \<open>The events that reach socket \<open>x\<close>, in the order they were emitted.\<close>

fun delivered :: "(string \<Rightarrow> sid set) \<Rightarrow> sid set \<Rightarrow> sid \<Rightarrow> effect list \<Rightarrow> out_event list" where
  "delivered members connected x [] = []"
| "delivered members connected x (Emit t ev # out) =
     (if x \<in> receivers members connected t then ev # delivered members connected x out
      else delivered members connected x out)"
| "delivered members connected x (e # out) = delivered members connected x out"

text \<open>The acknowledgements passed to the caller's callback.\<close>

fun acks :: "effect list \<Rightarrow> ack list" where
  "acks [] = []"
| "acks (Callback a # out) = a # acks out"
| "acks (e # out) = acks out"

text \<open>The events broadcast to every connected socket with \<open>io.emit\<close>.\<close>

fun broadcasts :: "effect list \<Rightarrow> out_event list" where
  "broadcasts [] = []"
| "broadcasts (Emit ToAll ev # out) = ev # broadcasts out"
| "broadcasts (e # out) = broadcasts out"

section \<open>Notions used in the statements\<close>

text \<open>An event that appends to the log of room \<open>r\<close>, and the message it appends.\<close>

fun appends_to :: "string \<Rightarrow> event \<Rightarrow> bool" where
  "appends_to r (On_send_message c d clk cb) = (room_or_default (md_room d) = r)"
| "appends_to r (On_send_file c d clk) = (room_or_default (fd_room d) = r)"
| "appends_to r e = False"

fun appended :: "state \<Rightarrow> event \<Rightarrow> message list" where
  "appended s (On_send_message c d clk cb) = [text_message s c d clk]"
| "appended s (On_send_file c d clk) = [file_message s c d clk]"
| "appended s e = []"

text \<open>
  Position \<open>(k, i)\<close>, the \<open>i\<close>-th message of the \<open>k\<close>-th room in iteration order, is the first
  message with id \<open>messageId\<close>: no earlier room holds the id, and no earlier message of
  room \<open>k\<close> does.
\<close>

definition first_match :: "(string \<times> message list) list \<Rightarrow> nat \<Rightarrow> nat \<Rightarrow> nat \<Rightarrow> bool" where
  "first_match ms messageId k i \<longleftrightarrow>
     k < length ms \<and> i < length (snd (ms ! k)) \<and> m_id (snd (ms ! k) ! i) = messageId
     \<and> (\<forall>m \<in> set (take i (snd (ms ! k))). m_id m \<noteq> messageId)
     \<and> (\<forall>log \<in> set (map snd (take k ms)). \<forall>m \<in> set log. m_id m \<noteq> messageId)"

text \<open>The id occurs in some room log.\<close>

definition present :: "(string \<times> message list) list \<Rightarrow> nat \<Rightarrow> bool" where
  "present ms messageId \<longleftrightarrow> (\<exists>log \<in> set (map snd ms). \<exists>m \<in> set log. m_id m = messageId)"

text \<open>The message at a position, and the two mutable fields read with their defaults.\<close>

definition message_at :: "state \<Rightarrow> nat \<Rightarrow> nat \<Rightarrow> message" where
  "message_at s k i = snd (messages s ! k) ! i"

definition readers :: "message \<Rightarrow> string list" where
  "readers m = (case m_readBy m of None \<Rightarrow> [] | Some l \<Rightarrow> l)"

text \<open>A sample run: socket \<open>s1\<close> sends \<open>n\<close> text messages to the default room, one per millisecond.\<close>

definition sample_sends :: "nat \<Rightarrow> event list" where
  "sample_sends n = map (\<lambda>t. On_send_message ''s1''
                  \<lparr>md_message = ''hi'', md_room = None, md_messageId = None\<rparr>
                  \<lparr>now = t, iso = ''t''\<rparr> True) [0..<n]"

text \<open>
  Replacing the message at position \<open>(k, i)\<close>; the positions whose message differs between
  two states; and two states that agree on everything but the contents of messages.
\<close>

definition update_at ::
  "(string \<times> message list) list \<Rightarrow> nat \<Rightarrow> nat \<Rightarrow> message \<Rightarrow> (string \<times> message list) list" where
  "update_at ms k i m = ms[k := (fst (ms ! k), (snd (ms ! k))[i := m])]"

definition changed :: "state \<Rightarrow> state \<Rightarrow> nat \<Rightarrow> nat \<Rightarrow> bool" where
  "changed s s' k i \<longleftrightarrow>
     k < length (messages s) \<and> i < length (snd (messages s ! k))
     \<and> message_at s' k i \<noteq> message_at s k i"

definition same_shape :: "state \<Rightarrow> state \<Rightarrow> bool" where
  "same_shape s s' \<longleftrightarrow>
     users s' = users s \<and> typingUsers s' = typingUsers s
     \<and> map fst (messages s') = map fst (messages s)
     \<and> map (\<lambda>p. length (snd p)) (messages s') = map (\<lambda>p. length (snd p)) (messages s)"

text \<open>A sample state: \<open>alice\<close> has joined on socket \<open>s1\<close> and sent one message at time 1000.\<close>

definition alice :: user where
  "alice = \<lparr>u_username = ''alice'', u_id = ''s1'', u_currentRoom = ''general''\<rparr>"

definition sample_state :: state where
  "sample_state =
     (case run init
        [On_user_join ''s1'' ''alice'',
         On_send_message ''s1'' \<lparr>md_message = ''hello'', md_room = None, md_messageId = None\<rparr>
           \<lparr>now = 1000, iso = ''t''\<rparr> True] of
        Inr (s, out) \<Rightarrow> s
      | Inl e \<Rightarrow> init)"

text \<open>
  The transport's table of room members, as pairs of a socket and a room it is in.  A
  socket is put in the room named by its own id when it connects; after that the table
  follows the \<open>socket.join\<close> and \<open>socket.leave\<close> calls of the handlers.
\<close>

type_synonym room_table = "(sid \<times> string) list"

definition own_rooms :: "sid list \<Rightarrow> room_table" where
  "own_rooms cs = map (\<lambda>c. (c, c)) cs"

fun track :: "room_table \<Rightarrow> effect list \<Rightarrow> room_table" where
  "track t [] = t"
| "track t (Join c room # out) = track (List.insert (c, room) t) out"
| "track t (Leave c room # out) = track (removeAll (c, room) t) out"
| "track t (e # out) = track t out"

definition members_in :: "room_table \<Rightarrow> string \<Rightarrow> sid set" where
  "members_in t room = set (map fst (filter (\<lambda>p. snd p = room) t))"

text \<open>
  A sample run: \<open>alice\<close>, \<open>bob\<close> and \<open>carol\<close> join on sockets \<open>s1\<close>, \<open>s2\<close> and \<open>s3\<close>; \<open>carol\<close>
  asks to join the room named by \<open>bob\<close>'s socket id, which \<open>user_list\<close> has told her; \<open>alice\<close>
  sends a message to the default room at time 1000.  Then, within the same millisecond,
  \<open>alice\<close> sends the private message \<open>secret\<close> to \<open>bob\<close>'s socket id.
\<close>

definition overheard_events :: "event list" where
  "overheard_events =
     [On_user_join ''s1'' ''alice'',
      On_user_join ''s2'' ''bob'',
      On_user_join ''s3'' ''carol'',
      On_join_room ''s3'' ''s2'',
      On_send_message ''s1'' \<lparr>md_message = ''hello'', md_room = None, md_messageId = None\<rparr>
        \<lparr>now = 1000, iso = ''t''\<rparr> True]"

definition overheard_state :: state where
  "overheard_state =
     (case run init overheard_events of Inr (s, out) \<Rightarrow> s | Inl e \<Rightarrow> init)"

definition overheard_table :: room_table where
  "overheard_table =
     (case run init overheard_events of
        Inr (s, out) \<Rightarrow> track (own_rooms [''s1'', ''s2'', ''s3'']) out
      | Inl e \<Rightarrow> own_rooms [''s1'', ''s2'', ''s3''])"

definition secret :: private_data where
  "secret = \<lparr>pd_to = ''s2'', pd_message = ''secret'', pd_messageId = None\<rparr>"

text \<open>
  The log invariant: the room names are the configured ones, in order, and no log is
  longer than 100.
\<close>

definition log_bound :: "state \<Rightarrow> bool" where
  "log_bound s \<longleftrightarrow>
     map fst (messages s) = rooms \<and> list_all (\<lambda>p. length (snd p) \<le> 100) (messages s)"

section \<open>Objects and logs\<close>

lemma js_get_update_same: "js_get (AList.update k v al) k = Own v"
  by (simp add: js_get_def update_conv')

lemma js_get_update_other: "k' \<noteq> k \<Longrightarrow> js_get (AList.update k v al) k' = js_get al k'"
  by (simp add: js_get_def update_conv')

lemma append_log_nonempty: "append_log log m \<noteq> []"
  by (cases log) (auto simp: append_log_def Let_def)

lemma append_log_last: "last (append_log log m) = m"
proof (cases "length (log @ [m]) > 100")
  case True
  then have "tl (log @ [m]) \<noteq> []" by (cases log) auto
  then have "last (tl (log @ [m])) = last (log @ [m])" by (rule last_tl[OF disjI2])
  with True show ?thesis by (simp add: append_log_def Let_def)
next
  case False
  then show ?thesis by (simp add: append_log_def Let_def)
qed

lemma sender_name_unregistered: "map_of us c = None \<Longrightarrow> sender_name us c = ''Anonymous''"
  by (simp add: sender_name_def)

section \<open>Typing from a socket that has not joined\<close>

text \<open>
  C9.  A \<open>typing\<close> event from a socket id that is not in the user registry changes no
  state and emits nothing.  A message send from the same socket is not dropped: on a
  room with a log it stores and fans out a message whose sender is \<open>Anonymous\<close>, and the
  file and private messages it would build carry the same fallback sender.
\<close>

theorem typing_unregistered_ignored:
  assumes "map_of (users s) socket_id = None"
  shows "typing s socket_id data = (s, [])
    \<and> (\<forall>log. js_get (messages s) (room_or_default (md_room d)) = Own log \<longrightarrow>
         (\<exists>s' out log'. send_message s socket_id d clk cb = Inr (s', out)
            \<and> js_get (messages s') (room_or_default (md_room d)) = Own log'
            \<and> log' \<noteq> [] \<and> m_sender (last log') = ''Anonymous''
            \<and> Emit (ToRoomExcept (room_or_default (md_room d)) socket_id)
                 (Receive_message (last log')) \<in> set out))
    \<and> m_sender (file_message s socket_id fd clk) = ''Anonymous''
    \<and> m_sender (private_message_data s socket_id pd clk) = ''Anonymous''"
proof -
  have a: "sender_name (users s) socket_id = ''Anonymous''"
    using assms by (rule sender_name_unregistered)
  have "typing s socket_id data = (s, [])"
    using assms by (simp add: typing_def)
  moreover have "m_sender (text_message s socket_id d clk) = ''Anonymous''"
    using a by (simp add: text_message_def)
  then have "\<forall>log. js_get (messages s) (room_or_default (md_room d)) = Own log \<longrightarrow>
         (\<exists>s' out log'. send_message s socket_id d clk cb = Inr (s', out)
            \<and> js_get (messages s') (room_or_default (md_room d)) = Own log'
            \<and> log' \<noteq> [] \<and> m_sender (last log') = ''Anonymous''
            \<and> Emit (ToRoomExcept (room_or_default (md_room d)) socket_id)
                 (Receive_message (last log')) \<in> set out)"
    by (simp add: send_message_def Let_def js_get_update_same append_log_nonempty
        append_log_last)
  moreover have "m_sender (file_message s socket_id fd clk) = ''Anonymous''"
    using a by (simp add: file_message_def)
  moreover have "m_sender (private_message_data s socket_id pd clk) = ''Anonymous''"
    using a by (simp add: private_message_data_def)
  ultimately show ?thesis by blast
qed

theorem typing_unregistered_ignored_witness:
  "map_of (users init) ''s1'' = None
   \<and> typing init ''s1'' \<lparr>td_isTyping = True, td_room = Some ''general''\<rparr> = (init, [])
   \<and> m_sender (file_message init ''s1''
        \<lparr>fd_file = ''data'', fd_fileName = ''a.png'', fd_fileType = ''image/png'',
         fd_room = None\<rparr> \<lparr>now = 1000, iso = ''t''\<rparr>) = ''Anonymous''"
proof -
  have h: "map_of (users init) ''s1'' = None" by (simp add: init_def)
  show ?thesis
    using h typing_unregistered_ignored [OF h] by blast
qed

section \<open>Private messages\<close>

text \<open>
  A \<open>private_message\<close> leaves the whole state, hence every room log, as it was.  The
  caller's callback, when one was passed, is called once with success and the id read
  from the clock for this message, whoever is connected.  The message is emitted once,
  to the room named by \<open>to\<close> without the sender: it reaches exactly the members of that
  room other than the sender.
\<close>

lemma private_message_frame:
  "fst (private_message s socket_id p clk cb) = s
   \<and> messages (fst (private_message s socket_id p clk cb)) = messages s
   \<and> acks (snd (private_message s socket_id p clk cb))
       = (if cb then [MessageAck True (now clk)] else [])
   \<and> m_id (private_message_data s socket_id p clk) = now clk
   \<and> m_isPrivate (private_message_data s socket_id p clk)
   \<and> m_senderId (private_message_data s socket_id p clk) = socket_id
   \<and> delivered members connected x (snd (private_message s socket_id p clk cb))
       = (if x \<in> members (pd_to p) \<and> x \<noteq> socket_id
          then [Private_message (private_message_data s socket_id p clk)] else [])
   \<and> (members (pd_to p) \<subseteq> {pd_to p} \<longrightarrow> x \<noteq> pd_to p \<longrightarrow>
        delivered members connected x (snd (private_message s socket_id p clk cb)) = [])"
  by (auto simp: private_message_def private_message_data_def Let_def receivers_def)

section \<open>The bounded room log\<close>

lemma append_log_drop:
  assumes "length log \<le> 100"
  shows "append_log log m = drop (length log + 1 - 100) (log @ [m])"
proof (cases "length log = 100")
  case True
  then have "length (log @ [m]) > 100" by simp
  moreover have "tl (log @ [m]) = drop 1 (log @ [m])" by (cases log) simp_all
  moreover have "length log + 1 - 100 = 1" using True by simp
  ultimately show ?thesis by (simp only: append_log_def Let_def if_True)
next
  case False
  with assms have "length log < 100" by simp
  then show ?thesis by (simp add: append_log_def Let_def)
qed

lemma foldl_append_log:
  "length log \<le> 100 \<Longrightarrow>
   foldl append_log log ms = drop (length log + length ms - 100) (log @ ms)"
proof (induction ms rule: rev_induct)
  case Nil
  then show ?case by simp
next
  case (snoc m ms)
  let ?k = "length log + length ms - 100"
  let ?ys = "drop ?k (log @ ms)"
  have len: "length ?ys \<le> 100" using snoc.prems by simp
  have "foldl append_log log (ms @ [m]) = append_log ?ys m"
    using snoc by simp
  also have "\<dots> = drop (length ?ys + 1 - 100) (?ys @ [m])"
    using len by (rule append_log_drop)
  also have "?ys @ [m] = drop ?k (log @ ms @ [m])"
    by simp
  also have "drop (length ?ys + 1 - 100) (drop ?k (log @ ms @ [m]))
      = drop (length ?ys + 1 - 100 + ?k) (log @ ms @ [m])"
    by (rule drop_drop)
  also have "length ?ys + 1 - 100 + ?k = length log + length (ms @ [m]) - 100"
    by simp
  finally show ?case .
qed

lemma users_append_step:
  "appends_to r e \<Longrightarrow> step s e = Inr (s', out) \<Longrightarrow> users s' = users s"
  by (cases e) (auto simp: send_message_def send_file_def Let_def split: js_prop.splits)

lemma appended_users: "users s' = users s \<Longrightarrow> appended s' e = appended s e"
  by (cases e) (simp_all add: text_message_def file_message_def)

lemma append_step:
  assumes "js_get (messages s) r = Own log" "appends_to r e"
  shows "\<exists>s' out m. step s e = Inr (s', out) \<and> users s' = users s \<and> appended s e = [m]
           \<and> js_get (messages s') r = Own (append_log log m)"
  using assms by (cases e) (auto simp: send_message_def send_file_def Let_def js_get_update_same)

lemma run_appends:
  "js_get (messages s) r = Own log \<Longrightarrow> \<forall>e \<in> set evs. appends_to r e \<Longrightarrow>
   \<exists>s' out. run s evs = Inr (s', out) \<and> users s' = users s
     \<and> length (concat (map (appended s) evs)) = length evs
     \<and> js_get (messages s') r = Own (foldl append_log log (concat (map (appended s) evs)))"
proof (induction evs arbitrary: s log)
  case Nil
  then show ?case by simp
next
  case (Cons e evs)
  from Cons.prems obtain s1 out1 m where
    st: "step s e = Inr (s1, out1)" and u: "users s1 = users s" and a: "appended s e = [m]"
    and g: "js_get (messages s1) r = Own (append_log log m)"
    using append_step [of s r log e] by auto
  have rest: "\<forall>e \<in> set evs. appends_to r e" using Cons.prems(2) by simp
  from Cons.IH [OF g rest] obtain s2 out2 where
    r: "run s1 evs = Inr (s2, out2)" and u2: "users s2 = users s1"
    and l: "length (concat (map (appended s1) evs)) = length evs"
    and g2: "js_get (messages s2) r
               = Own (foldl append_log (append_log log m) (concat (map (appended s1) evs)))"
    by blast
  have eq: "map (appended s1) evs = map (appended s) evs"
    by (rule map_cong [OF refl]) (rule appended_users [OF u])
  have c: "concat (map (appended s) (e # evs)) = m # concat (map (appended s) evs)"
    using a by simp
  have 1: "run s (e # evs) = Inr (s2, out1 @ out2)"
    using st r by simp
  have 2: "users s2 = users s"
    using u u2 by (rule trans [OF _ _, rotated])
  have 3: "length (concat (map (appended s) (e # evs))) = length (e # evs)"
    using l unfolding c eq by simp
  have 4: "js_get (messages s2) r
             = Own (foldl append_log log (concat (map (appended s) (e # evs))))"
    using g2 unfolding c eq by simp
  from 1 2 3 4 show ?case by blast
qed

lemma sample_sends_append: "\<forall>e \<in> set (sample_sends n). appends_to ''general'' e"
  unfolding sample_sends_def set_map by (simp add: room_or_default_def)

lemma sample_sends_length: "length (sample_sends n) = n"
  unfolding sample_sends_def by simp

lemma init_general: "js_get (messages init) ''general'' = Own []"
  by (simp add: js_get_def init_def rooms_def)

text \<open>
  C1.  Let the log of room \<open>r\<close> hold at most 100 messages, and let more than 100
  events, each a \<open>send_message\<close> or a \<open>send_file\<close> for room \<open>r\<close>, be handled in a row.  Then every
  one of them succeeds; after each prefix of the events the log holds at most 100 messages
  and is the old log followed by the messages appended so far with the oldest ones dropped
  from the front; and at the end the log is exactly the last 100 appended messages,
  in the order they were appended.
\<close>

theorem room_log_bounded_fifo:
  assumes "js_get (messages s) r = Own log" and "length log \<le> 100"
    and "list_all (appends_to r) evs" and "100 < length evs"
  shows "(\<exists>s' out. run s evs = Inr (s', out)
            \<and> js_get (messages s') r
                = Own (drop (length evs - 100) (concat (map (appended s) evs))))
    \<and> length (concat (map (appended s) evs)) = length evs
    \<and> (\<forall>k \<le> length evs. \<exists>sk outk logk.
          run s (take k evs) = Inr (sk, outk) \<and> js_get (messages sk) r = Own logk
          \<and> length logk \<le> 100
          \<and> logk = drop (length log + k - 100) (log @ concat (map (appended s) (take k evs))))"
proof -
  let ?ms = "concat (map (appended s) evs)"
  have all: "\<forall>e \<in> set evs. appends_to r e"
    using assms(3) by (simp add: list_all_iff)
  from run_appends [OF assms(1) all] obtain s' out where
    r: "run s evs = Inr (s', out)" and l: "length ?ms = length evs"
    and g: "js_get (messages s') r = Own (foldl append_log log ?ms)"
    by blast
  have "foldl append_log log ?ms = drop (length log + length ?ms - 100) (log @ ?ms)"
    using assms(2) by (rule foldl_append_log)
  also have "\<dots> = drop (length evs - 100) ?ms"
    using l assms(4) by simp
  finally have final: "js_get (messages s') r = Own (drop (length evs - 100) ?ms)"
    using g by simp
  have prefix: "\<exists>sk outk logk.
          run s (take k evs) = Inr (sk, outk) \<and> js_get (messages sk) r = Own logk
          \<and> length logk \<le> 100
          \<and> logk = drop (length log + k - 100) (log @ concat (map (appended s) (take k evs)))"
    if k: "k \<le> length evs" for k
  proof -
    let ?p = "concat (map (appended s) (take k evs))"
    have "\<forall>e \<in> set (take k evs). appends_to r e"
      using all by (meson in_set_takeD)
    from run_appends [OF assms(1) this] obtain sk outk where
      rk: "run s (take k evs) = Inr (sk, outk)" and lk: "length ?p = length (take k evs)"
      and gk: "js_get (messages sk) r = Own (foldl append_log log ?p)"
      by blast
    have lk': "length ?p = k" using lk k by simp
    have fk: "foldl append_log log ?p = drop (length log + k - 100) (log @ ?p)"
      using foldl_append_log [OF assms(2), of ?p] lk' by simp
    have "length (drop (length log + k - 100) (log @ ?p)) \<le> 100"
      using lk' by simp
    with rk gk fk show ?thesis by simp
  qed
  from r final l prefix show ?thesis by blast
qed

theorem room_log_bounded_fifo_witness:
  "js_get (messages init) ''general'' = Own [] \<and> length ([] :: message list) \<le> 100
   \<and> list_all (appends_to ''general'') (sample_sends 101)
   \<and> 100 < length (sample_sends 101)
   \<and> (\<exists>s' out. run init (sample_sends 101) = Inr (s', out)
         \<and> js_get (messages s') ''general''
             = Own (drop (length (sample_sends 101) - 100)
                      (concat (map (appended init) (sample_sends 101)))))"
proof -
  have h2: "length ([] :: message list) \<le> 100" by simp
  have h3: "list_all (appends_to ''general'') (sample_sends 101)"
    using sample_sends_append [of 101] by (simp only: list_all_iff)
  have h4: "100 < length (sample_sends 101)" by (simp add: sample_sends_length)
  note c = room_log_bounded_fifo [OF init_general h2 h3 h4, THEN conjunct1]
  show ?thesis
    by (rule conjI [OF init_general conjI [OF h2 conjI [OF h3 conjI [OF h4 c]]]])
qed

section \<open>Message identifiers\<close>

lemma message_id_is_clock:
  "m_id (text_message s c d clk) = now clk"
  "m_id (file_message s c f clk) = now clk"
  "m_id (private_message_data s c p clk) = now clk"
  by (simp_all add: text_message_def file_message_def private_message_data_def)

text \<open>
  C2.  The id of a message is the reading of the millisecond clock when it is built.  Two
  messages sent by two sockets within the same millisecond are both stored and both
  acknowledged with the same id 1000: they are different messages with equal ids.
\<close>

theorem same_millisecond_same_id:
  "\<exists>s out m1 m2.
     run init
       [On_send_message ''s1'' \<lparr>md_message = ''a'', md_room = None, md_messageId = None\<rparr>
          \<lparr>now = 1000, iso = ''t''\<rparr> True,
        On_send_message ''s2'' \<lparr>md_message = ''b'', md_room = None, md_messageId = None\<rparr>
          \<lparr>now = 1000, iso = ''t''\<rparr> True] = Inr (s, out)
     \<and> js_get (messages s) ''general'' = Own [m1, m2]
     \<and> m1 \<noteq> m2 \<and> m_id m1 = 1000 \<and> m_id m2 = 1000
     \<and> acks out = [MessageAck True 1000, MessageAck True 1000]"
  by (simp add: send_message_def Let_def js_get_def init_def rooms_def room_or_default_def
      append_log_def text_message_def)

section \<open>Pagination\<close>

lemma load_messages_window:
  assumes "js_get (messages s) room = Own log" and "0 \<le> limit" and "0 \<le> offset"
    and "offset \<le> int (length log)"
  shows "load_messages s room (Some limit) (Some offset) True =
           Inr (s, [Callback (LoadAck True
                  (drop (nat (int (length log) - limit - offset))
                     (take (nat (int (length log) - offset)) log))
                  (limit + offset < int (length log)))])"
proof -
  let ?n = "int (length log)"
  let ?start = "max 0 (?n - limit - offset)"
  have "js_slice log ?start (?n - offset)
      = take (nat (?n - offset - ?start)) (drop (nat ?start) log)"
    using assms(2-4) by (simp add: js_slice_def Let_def min_def max_def)
  also have "\<dots> = drop (nat ?start) (take (nat (?n - offset - ?start) + nat ?start) log)"
    by (simp only: take_drop)
  also have "nat (?n - offset - ?start) + nat ?start = nat (?n - offset)"
    using assms(2-4) by arith
  also have "nat ?start = nat (?n - limit - offset)"
    by (simp add: max_def)
  finally have sl: "js_slice log ?start (?n - offset)
      = drop (nat (?n - limit - offset)) (take (nat (?n - offset)) log)" .
  have hm: "(0 < ?start) = (limit + offset < ?n)" by (auto simp: max_def)
  show ?thesis
    unfolding load_messages_def Let_def assms(1) using sl hm by simp
qed

lemma load_messages_past_end:
  assumes "js_get (messages s) room = Own log" and "0 \<le> limit"
    and "int (length log) < offset"
  shows "load_messages s room (Some limit) (Some offset) True =
           Inr (s, [Callback (LoadAck True
                  (take (nat (2 * int (length log) - offset)) log) False)])"
proof -
  let ?n = "int (length log)"
  have st: "max 0 (?n - limit - offset) = 0" using assms(2,3) by simp
  have "js_slice log 0 (?n - offset) = take (nat (2 * ?n - offset)) log"
    using assms(3) by (simp add: js_slice_def Let_def max_def)
  then have sl: "js_slice log (max 0 (?n - limit - offset)) (?n - offset)
      = take (nat (2 * ?n - offset)) log"
    by (simp only: st)
  have hm: "\<not> 0 < max 0 (?n - limit - offset)" by (simp only: st)
  show ?thesis
    using sl hm by (simp add: load_messages_def Let_def assms(1))
qed

lemma load_messages_defaults:
  "load_messages s room None None cb = load_messages s room (Some 20) (Some 0) cb"
  by (simp add: load_messages_def)

lemma load_messages_fifty:
  assumes "js_get (messages s) room = Own log" and "length log = 50"
  shows "load_messages s room (Some 20) (Some 0) True
           = Inr (s, [Callback (LoadAck True (drop 30 log) True)])"
    and "load_messages s room (Some 20) (Some 20) True
           = Inr (s, [Callback (LoadAck True (drop 10 (take 30 log)) True)])"
    and "load_messages s room (Some 20) (Some 40) True
           = Inr (s, [Callback (LoadAck True (take 10 log) False)])"
  using load_messages_window [OF assms(1), of 20 0] load_messages_window [OF assms(1), of 20 20]
    load_messages_window [OF assms(1), of 20 40] assms(2)
  by simp_all

text \<open>
  C3.  After 50 messages have been sent to room \<open>general\<close>, \<open>load_messages\<close> with limit 20
  and offset 60 (an offset beyond the length of the log) answers with the 40 oldest
  messages of the log and \<open>hasMore = false\<close>: the end index \<open>50 - 60\<close> is negative and
  \<open>slice\<close> counts it from the end of the array.
\<close>

theorem load_messages_offset_beyond_log:
  "\<exists>s out log. run init (sample_sends 50) = Inr (s, out)
     \<and> js_get (messages s) ''general'' = Own log \<and> length log = 50
     \<and> load_messages s ''general'' (Some 20) (Some 60) True
          = Inr (s, [Callback (LoadAck True (take 40 log) False)])
     \<and> length (take 40 log) = 40"
proof -
  from run_appends [OF init_general sample_sends_append [of 50]] obtain s out where
    r: "run init (sample_sends 50) = Inr (s, out)"
    and l: "length (concat (map (appended init) (sample_sends 50))) = length (sample_sends 50)"
    and g: "js_get (messages s) ''general''
              = Own (foldl append_log [] (concat (map (appended init) (sample_sends 50))))"
    by blast
  let ?log = "foldl append_log [] (concat (map (appended init) (sample_sends 50)))"
  have "?log = drop (length ([] :: message list)
                      + length (concat (map (appended init) (sample_sends 50))) - 100)
                 ([] @ concat (map (appended init) (sample_sends 50)))"
    by (rule foldl_append_log) simp
  then have len: "length ?log = 50"
    using l by (simp add: sample_sends_length)
  have "load_messages s ''general'' (Some 20) (Some 60) True
          = Inr (s, [Callback (LoadAck True (take (nat (2 * int (length ?log) - 60)) ?log) False)])"
    using g by (rule load_messages_past_end) (simp_all add: len)
  then have "load_messages s ''general'' (Some 20) (Some 60) True
          = Inr (s, [Callback (LoadAck True (take 40 ?log) False)])"
    by (simp add: len)
  with r g len show ?thesis by auto
qed

section \<open>Sending to a room that is not configured\<close>

lemma send_unknown_room:
  "map_of (messages s) (room_or_default (md_room d)) = None \<Longrightarrow>
   send_message s c d clk cb = Inl TypeError"
  "map_of (messages s) (room_or_default (fd_room f)) = None \<Longrightarrow>
   send_file s c f clk = Inl TypeError"
  by (simp_all add: send_message_def send_file_def Let_def js_get_def)

text \<open>
  C4.  A joined user who sends a text message, or a file, to the room \<open>lobby\<close>, which is
  not one of the configured rooms, makes the handler throw a \<open>TypeError\<close>: no
  acknowledgement is passed to the callback and nothing is emitted.
\<close>

theorem send_to_unknown_room_throws:
  "run init
     [On_user_join ''s1'' ''alice'',
      On_send_message ''s1'' \<lparr>md_message = ''hi'', md_room = Some ''lobby'', md_messageId = None\<rparr>
        \<lparr>now = 1000, iso = ''t''\<rparr> True] = Inl TypeError
   \<and> run init
     [On_user_join ''s1'' ''alice'',
      On_send_file ''s1'' \<lparr>fd_file = ''data'', fd_fileName = ''a.png'',
         fd_fileType = ''image/png'', fd_room = Some ''lobby''\<rparr>
        \<lparr>now = 1000, iso = ''t''\<rparr>] = Inl TypeError"
  by (simp add: user_join_def send_message_def send_file_def Let_def js_get_def init_def
      rooms_def room_or_default_def object_prototype_keys_def)

section \<open>Fan-out of text and file messages\<close>

text \<open>
  C5.  A \<open>send_message\<close> to a room with a log stores the message, acknowledges it to the
  sender's callback (when one was passed) with the id of the stored message, and delivers
  \<open>receive_message\<close> to exactly the members of the room other than the sender; the sender
  itself is delivered nothing.  A \<open>send_file\<close> stores the message and delivers
  \<open>receive_file\<close> once to the sender and once to every other member of the room; it
  has no acknowledgement.
\<close>

theorem fan_out:
  "(js_get (messages s) (room_or_default (md_room d)) = Own log \<longrightarrow>
      (\<exists>s' out. send_message s c d clk cb = Inr (s', out)
         \<and> js_get (messages s') (room_or_default (md_room d))
             = Own (append_log log (text_message s c d clk))
         \<and> acks out = (if cb then [MessageAck True (m_id (text_message s c d clk))] else [])
         \<and> delivered members connected c out = []
         \<and> (\<forall>x. delivered members connected x out
               = (if x \<in> members (room_or_default (md_room d)) \<and> x \<noteq> c
                  then [Receive_message (text_message s c d clk)] else []))))
   \<and> (js_get (messages s) (room_or_default (fd_room f)) = Own flog \<longrightarrow>
      (\<exists>s' out. send_file s c f clk = Inr (s', out)
         \<and> js_get (messages s') (room_or_default (fd_room f))
             = Own (append_log flog (file_message s c f clk))
         \<and> acks out = []
         \<and> delivered members connected c out = [Receive_file (file_message s c f clk)]
         \<and> (\<forall>x. delivered members connected x out
               = (if x \<in> members (room_or_default (fd_room f)) \<or> x = c
                  then [Receive_file (file_message s c f clk)] else []))))"
  by (auto simp: send_message_def send_file_def Let_def js_get_update_same receivers_def
      message_id_is_clock)

theorem fan_out_witness:
  "js_get (messages init) (room_or_default (md_room
       \<lparr>md_message = ''hello'', md_room = None, md_messageId = None\<rparr>)) = Own []
   \<and> js_get (messages init) (room_or_default (fd_room
       \<lparr>fd_file = ''data'', fd_fileName = ''a.png'', fd_fileType = ''image/png'',
        fd_room = None\<rparr>)) = Own []
   \<and> (\<exists>s' out. send_message init ''s1''
          \<lparr>md_message = ''hello'', md_room = None, md_messageId = None\<rparr>
          \<lparr>now = 1000, iso = ''t''\<rparr> True = Inr (s', out)
         \<and> delivered (\<lambda>r. if r = ''general'' then {''s1'', ''s2''} else {}) {''s1'', ''s2''}
             ''s1'' out = [])
   \<and> (\<exists>s' out. send_file init ''s1''
          \<lparr>fd_file = ''data'', fd_fileName = ''a.png'', fd_fileType = ''image/png'',
           fd_room = None\<rparr> \<lparr>now = 1000, iso = ''t''\<rparr> = Inr (s', out)
         \<and> delivered (\<lambda>r. if r = ''general'' then {''s1'', ''s2''} else {}) {''s1'', ''s2''}
             ''s1'' out
           = [Receive_file (file_message init ''s1''
                \<lparr>fd_file = ''data'', fd_fileName = ''a.png'', fd_fileType = ''image/png'',
                 fd_room = None\<rparr> \<lparr>now = 1000, iso = ''t''\<rparr>)])"
proof -
  have h1: "js_get (messages init) (room_or_default (md_room
       \<lparr>md_message = ''hello'', md_room = None, md_messageId = None\<rparr>)) = Own []"
    by (simp add: room_or_default_def init_general)
  have h2: "js_get (messages init) (room_or_default (fd_room
       \<lparr>fd_file = ''data'', fd_fileName = ''a.png'', fd_fileType = ''image/png'',
        fd_room = None\<rparr>)) = Own []"
    by (simp add: room_or_default_def init_general)
  show ?thesis
    using h1 h2
      fan_out [of init "\<lparr>md_message = ''hello'', md_room = None, md_messageId = None\<rparr>"
        "[]" "''s1''" "\<lparr>now = 1000, iso = ''t''\<rparr>" True
        "\<lambda>r. if r = ''general'' then {''s1'', ''s2''} else {}" "{''s1'', ''s2''}"
        "\<lparr>fd_file = ''data'', fd_fileName = ''a.png'', fd_fileType = ''image/png'',
          fd_room = None\<rparr>" "[]"]
    by blast
qed

section \<open>Finding a message by id\<close>

lemma findIndex_None: "findIndex P xs = None \<longleftrightarrow> (\<forall>x \<in> set xs. \<not> P x)"
  by (induction xs) auto

lemma findIndex_Some:
  "findIndex P xs = Some i \<longleftrightarrow> i < length xs \<and> P (xs ! i) \<and> (\<forall>x \<in> set (take i xs). \<not> P x)"
proof (induction xs arbitrary: i)
  case Nil
  then show ?case by simp
next
  case (Cons x xs)
  show ?case
  proof (cases i)
    case 0
    then show ?thesis by (auto simp: findIndex_None)
  next
    case (Suc j)
    then show ?thesis using Cons.IH [of j] by auto
  qed
qed

lemma first_match_0:
  "first_match ((room, log) # rest) messageId 0 i
     \<longleftrightarrow> findIndex (\<lambda>msg. m_id msg = messageId) log = Some i"
  by (auto simp: first_match_def findIndex_Some)

lemma first_match_Suc:
  "first_match ((room, log) # rest) messageId (Suc k) i
     \<longleftrightarrow> findIndex (\<lambda>msg. m_id msg = messageId) log = None \<and> first_match rest messageId k i"
  by (auto simp: first_match_def findIndex_None)

lemma present_Cons:
  "present ((room, log) # rest) messageId
     \<longleftrightarrow> findIndex (\<lambda>msg. m_id msg = messageId) log \<noteq> None \<or> present rest messageId"
  by (auto simp: present_def findIndex_None)

lemma present_first_match: "present ms messageId \<longleftrightarrow> (\<exists>k i. first_match ms messageId k i)"
proof (induction ms)
  case Nil
  then show ?case by (simp add: present_def first_match_def)
next
  case (Cons p ms)
  obtain room log where p: "p = (room, log)" by (cases p)
  show ?case
  proof (cases "findIndex (\<lambda>msg. m_id msg = messageId) log")
    case None
    have "(\<exists>k i. first_match ((room, log) # ms) messageId k i)
        \<longleftrightarrow> (\<exists>k i. first_match ms messageId k i)"
    proof
      assume "\<exists>k i. first_match ((room, log) # ms) messageId k i"
      then obtain k i where f: "first_match ((room, log) # ms) messageId k i" by blast
      with None obtain j where "k = Suc j" by (cases k) (auto simp: first_match_0)
      with f show "\<exists>k i. first_match ms messageId k i" by (auto simp: first_match_Suc)
    next
      assume "\<exists>k i. first_match ms messageId k i"
      then obtain k i where "first_match ms messageId k i" by blast
      with None have "first_match ((room, log) # ms) messageId (Suc k) i"
        by (simp add: first_match_Suc)
      then show "\<exists>k i. first_match ((room, log) # ms) messageId k i" by blast
    qed
    with None Cons.IH p show ?thesis by (simp add: present_Cons)
  next
    case (Some i)
    then have "first_match ((room, log) # ms) messageId 0 i" by (simp add: first_match_0)
    then have "\<exists>k i. first_match ((room, log) # ms) messageId k i" by blast
    with Some p show ?thesis by (simp add: present_Cons)
  qed
qed

lemma first_match_unique:
  "first_match ms messageId k i \<Longrightarrow> first_match ms messageId k' i' \<Longrightarrow> k' = k \<and> i' = i"
proof (induction ms arbitrary: k k')
  case Nil
  then show ?case by (simp add: first_match_def)
next
  case (Cons p ms)
  obtain room log where p: "p = (room, log)" by (cases p)
  show ?case
  proof (cases "findIndex (\<lambda>msg. m_id msg = messageId) log")
    case None
    with Cons.prems p obtain j j' where "k = Suc j" "k' = Suc j'"
      by (cases k; cases k') (auto simp: first_match_0)
    with Cons.prems p Cons.IH [of j j'] show ?thesis by (auto simp: first_match_Suc)
  next
    case (Some n)
    with Cons.prems p have "k = 0" "k' = 0"
      by (cases k; cases k'; auto simp: first_match_Suc)+
    with Cons.prems p Some show ?thesis by (auto simp: first_match_0)
  qed
qed

lemma mark_read_rooms_absent:
  "\<not> present ms messageId \<Longrightarrow> mark_read_rooms ms messageId username = (ms, [])"
proof (induction ms)
  case Nil
  then show ?case by simp
next
  case (Cons p ms)
  obtain room log where p: "p = (room, log)" by (cases p)
  with Cons show ?case by (auto simp: present_Cons)
qed

lemma mark_read_rooms_first:
  "first_match ms messageId k i \<Longrightarrow>
   mark_read_rooms ms messageId username =
     (ms[k := (fst (ms ! k), (snd (ms ! k))[i := fst (read_by (snd (ms ! k) ! i) username)])],
      if snd (read_by (snd (ms ! k) ! i) username)
      then [Emit ToAll (Message_read messageId username)] else [])"
proof (induction ms arbitrary: k)
  case Nil
  then show ?case by (simp add: first_match_def)
next
  case (Cons p ms)
  obtain room log where p: "p = (room, log)" by (cases p)
  show ?case
  proof (cases k)
    case 0
    with Cons.prems p show ?thesis
      by (simp add: first_match_0 split: prod.splits)
  next
    case (Suc j)
    with Cons.prems p Cons.IH [of j] show ?thesis
      by (simp add: first_match_Suc)
  qed
qed

lemma add_reaction_rooms_absent:
  "\<not> present ms messageId \<Longrightarrow> add_reaction_rooms ms messageId reaction = (ms, [])"
proof (induction ms)
  case Nil
  then show ?case by simp
next
  case (Cons p ms)
  obtain room log where p: "p = (room, log)" by (cases p)
  with Cons show ?case by (auto simp: present_Cons)
qed

lemma add_reaction_rooms_first:
  "first_match ms messageId k i \<Longrightarrow>
   add_reaction_rooms ms messageId reaction =
     (ms[k := (fst (ms ! k), (snd (ms ! k))[i := react (snd (ms ! k) ! i) reaction])],
      [Emit ToAll (Reaction_added messageId reaction
         (reaction_count (react (snd (ms ! k) ! i) reaction) reaction))])"
proof (induction ms arbitrary: k)
  case Nil
  then show ?case by (simp add: first_match_def)
next
  case (Cons p ms)
  obtain room log where p: "p = (room, log)" by (cases p)
  show ?case
  proof (cases k)
    case 0
    with Cons.prems p show ?thesis
      by (simp add: first_match_0 Let_def)
  next
    case (Suc j)
    with Cons.prems p Cons.IH [of j] show ?thesis
      by (simp add: first_match_Suc)
  qed
qed

section \<open>Updating one message\<close>

lemma first_match_update:
  assumes "first_match ms messageId k i" and "m_id m' = messageId"
  shows "first_match (ms[k := (fst (ms ! k), (snd (ms ! k))[i := m'])]) messageId k i"
  using assms by (simp add: first_match_def)

lemma update_at_same:
  assumes "k < length ms" and "i < length (snd (ms ! k))"
  shows "snd (ms[k := (fst (ms ! k), (snd (ms ! k))[i := m'])] ! k) ! i = m'"
  using assms by simp

lemma set_messages_same: "s\<lparr>messages := messages s\<rparr> = s"
  by simp

lemma changed_self: "\<not> changed s s k i"
  by (simp add: changed_def)

lemma message_at_update_at:
  assumes "k < length (messages s)" and "i < length (snd (messages s ! k))"
  shows "message_at (s\<lparr>messages := update_at (messages s) k0 i0 m'\<rparr>) k i
           = (if k = k0 \<and> i = i0 then m' else message_at s k i)"
proof (cases "k = k0")
  case True
  with assms show ?thesis
    by (simp add: message_at_def update_at_def nth_list_update)
next
  case False
  then show ?thesis
    by (simp add: message_at_def update_at_def)
qed

lemma changed_update_at:
  assumes "changed s (s\<lparr>messages := update_at (messages s) k0 i0 m'\<rparr>) k i"
  shows "k = k0 \<and> i = i0 \<and> message_at (s\<lparr>messages := update_at (messages s) k0 i0 m'\<rparr>) k i = m'"
proof -
  from assms have k: "k < length (messages s)" and i: "i < length (snd (messages s ! k))"
    and ne: "message_at (s\<lparr>messages := update_at (messages s) k0 i0 m'\<rparr>) k i \<noteq> message_at s k i"
    by (simp_all add: changed_def)
  from ne show ?thesis
    unfolding message_at_update_at [OF k i] by (simp split: if_splits)
qed

lemma same_shape_refl: "same_shape s s"
  by (simp add: same_shape_def)

lemma same_shape_update_at: "same_shape s (s\<lparr>messages := update_at (messages s) k i m'\<rparr>)"
proof (cases "k < length (messages s)")
  case True
  have "map fst (update_at (messages s) k i m') = (map fst (messages s))[k := map fst (messages s) ! k]"
    using True by (simp add: update_at_def map_update)
  moreover have "map (\<lambda>p. length (snd p)) (update_at (messages s) k i m')
      = (map (\<lambda>p. length (snd p)) (messages s))[k := map (\<lambda>p. length (snd p)) (messages s) ! k]"
    using True by (simp add: update_at_def map_update)
  ultimately show ?thesis by (simp add: same_shape_def)
next
  case False
  then have "update_at (messages s) k i m' = messages s"
    by (simp add: update_at_def list_update_beyond)
  then show ?thesis by (simp add: same_shape_def)
qed

lemma sample_state_eq:
  "sample_state =
     \<lparr>users = [(''s1'', alice)],
      messages =
        [(''general'',
          [\<lparr>m_id = 1000, m_sender = ''alice'', m_senderId = ''s1'', m_message = Some ''hello'',
            m_messageId = None, m_timestamp = ''t'', m_room = Some ''general'',
            m_reactions = Some [], m_readBy = Some [], m_isPrivate = False, m_to = None,
            m_isFile = False, m_file = None, m_fileName = None, m_fileType = None\<rparr>]),
         (''random'', []), (''help'', [])],
      typingUsers = []\<rparr>"
  by (simp add: sample_state_def user_join_def send_message_def Let_def js_get_def init_def
      rooms_def room_or_default_def append_log_def text_message_def sender_name_def alice_def)


lemma sample_state_present: "present (messages sample_state) 1000"
  by (simp add: sample_state_eq present_def)

section \<open>Read receipts\<close>


lemma read_by_flag: "snd (read_by m u) = (u \<notin> set (readers m))"
  by (simp add: read_by_def readers_def Let_def)


lemma read_by_frame: "(fst (read_by m u))\<lparr>m_readBy := m_readBy m\<rparr> = m"
  by (simp add: read_by_def Let_def)





lemma mark_read_found:
  assumes "map_of (users s) c = Some u" and "first_match (messages s) messageId k i"
  shows "mark_read s c messageId =
           (s\<lparr>messages := (messages s)[k := (fst (messages s ! k),
                 (snd (messages s ! k))[i := fst (read_by (message_at s k i) (u_username u))])]\<rparr>,
            if u_username u \<in> set (readers (message_at s k i)) then []
            else [Emit ToAll (Message_read messageId (u_username u))])"
proof -
  note r = mark_read_rooms_first [OF assms(2), of "u_username u"]
  show ?thesis
    unfolding mark_read_def assms(1) option.case r Let_def prod.case message_at_def read_by_flag
    by simp
qed

lemma mark_read_absent:
  "\<not> present (messages s) messageId \<Longrightarrow> mark_read s c messageId = (s, [])"
  by (simp add: mark_read_def mark_read_rooms_absent split: option.splits)

lemma mark_read_cases:
  "fst (mark_read s c messageId) = s
   \<or> (\<exists>k i u. first_match (messages s) messageId k i
        \<and> fst (mark_read s c messageId)
            = s\<lparr>messages := update_at (messages s) k i
                   (fst (read_by (message_at s k i) u))\<rparr>)"
proof (cases "map_of (users s) c")
  case None
  then show ?thesis by (simp add: mark_read_def)
next
  case (Some u)
  show ?thesis
  proof (cases "present (messages s) messageId")
    case True
    then obtain k i where "first_match (messages s) messageId k i"
      by (auto simp: present_first_match)
    with Some show ?thesis by (auto simp: mark_read_found update_at_def)
  next
    case False
    then show ?thesis by (simp add: mark_read_absent)
  qed
qed



section \<open>Reactions\<close>

lemma js_get_js_set_other: "k' \<noteq> k \<Longrightarrow> js_get (js_set obj k v) k' = js_get obj k'"
  by (simp add: js_set_def js_get_update_other)

lemma react_frame: "(react m r)\<lparr>m_reactions := m_reactions m\<rparr> = m"
  by (simp add: react_def Let_def)

lemma react_other: "r' \<noteq> r \<Longrightarrow> reaction_count (react m r) r' = reaction_count m r'"
  by (simp add: react_def reaction_count_def Let_def js_get_js_set_other)

lemma react_id: "m_id (react m r) = m_id m"
  by (simp add: react_def Let_def)

lemma add_reaction_absent:
  "\<not> present (messages s) messageId \<Longrightarrow> add_reaction s c messageId r = (s, [])"
  by (simp add: add_reaction_def add_reaction_rooms_absent split: option.splits)

lemma add_reaction_found:
  assumes "map_of (users s) c = Some u" and "first_match (messages s) messageId k i"
  shows "add_reaction s c messageId r =
           (s\<lparr>messages := update_at (messages s) k i (react (message_at s k i) r)\<rparr>,
            [Emit ToAll (Reaction_added messageId r
               (reaction_count (react (message_at s k i) r) r))])"
proof -
  note f = add_reaction_rooms_first [OF assms(2), of r]
  show ?thesis
    unfolding add_reaction_def assms(1) option.case f Let_def prod.case message_at_def
      update_at_def
    by simp
qed

lemma add_reaction_cases:
  "fst (add_reaction s c messageId r) = s
   \<or> (\<exists>k i. first_match (messages s) messageId k i
        \<and> fst (add_reaction s c messageId r)
            = s\<lparr>messages := update_at (messages s) k i (react (message_at s k i) r)\<rparr>)"
proof (cases "map_of (users s) c")
  case None
  then show ?thesis by (simp add: add_reaction_def)
next
  case (Some u)
  show ?thesis
  proof (cases "present (messages s) messageId")
    case True
    then obtain k i where "first_match (messages s) messageId k i"
      by (auto simp: present_first_match)
    with Some show ?thesis by (auto simp: add_reaction_found)
  next
    case False
    then show ?thesis by (simp add: add_reaction_absent)
  qed
qed

section \<open>What a reaction or a read receipt may change\<close>

text \<open>
  C10.  An \<open>add_reaction\<close> or a \<open>mark_read\<close> leaves the users, the typing table, the room
  names and the length of every log as they were.  A position whose message differs
  afterwards is the position of the first message with the given id, in room iteration
  order, so at most one message changes.  That message differs from the old one in its
  \<open>reactions\<close> field only, and there only in the counter of the given reaction
  (respectively in its \<open>readBy\<close> field only).
\<close>

theorem one_message_mutated:
  "(let s' = fst (add_reaction s c messageId reaction)
    in same_shape s s'
     \<and> (\<forall>k i. changed s s' k i \<longrightarrow>
           first_match (messages s) messageId k i
         \<and> (\<forall>k' i'. changed s s' k' i' \<longrightarrow> k' = k \<and> i' = i)
         \<and> (message_at s' k i)\<lparr>m_reactions := m_reactions (message_at s k i)\<rparr>
             = message_at s k i
         \<and> (\<forall>r. r \<noteq> reaction \<longrightarrow>
               reaction_count (message_at s' k i) r = reaction_count (message_at s k i) r)))
   \<and> (let s' = fst (mark_read s c messageId)
    in same_shape s s'
     \<and> (\<forall>k i. changed s s' k i \<longrightarrow>
           first_match (messages s) messageId k i
         \<and> (\<forall>k' i'. changed s s' k' i' \<longrightarrow> k' = k \<and> i' = i)
         \<and> (message_at s' k i)\<lparr>m_readBy := m_readBy (message_at s k i)\<rparr>
             = message_at s k i))"
proof -
  have a: "same_shape s (fst (add_reaction s c messageId reaction))"
    using add_reaction_cases [of s c messageId reaction]
    by (auto simp: same_shape_refl same_shape_update_at)
  have b: "first_match (messages s) messageId k i
         \<and> (\<forall>k' i'. changed s (fst (add_reaction s c messageId reaction)) k' i'
               \<longrightarrow> k' = k \<and> i' = i)
         \<and> (message_at (fst (add_reaction s c messageId reaction)) k i)
               \<lparr>m_reactions := m_reactions (message_at s k i)\<rparr> = message_at s k i
         \<and> (\<forall>r. r \<noteq> reaction \<longrightarrow>
               reaction_count (message_at (fst (add_reaction s c messageId reaction)) k i) r
                 = reaction_count (message_at s k i) r)"
    if ch: "changed s (fst (add_reaction s c messageId reaction)) k i" for k i
  proof -
    from add_reaction_cases [of s c messageId reaction] ch obtain k0 i0 where
      fm: "first_match (messages s) messageId k0 i0"
      and eq: "fst (add_reaction s c messageId reaction)
            = s\<lparr>messages := update_at (messages s) k0 i0 (react (message_at s k0 i0) reaction)\<rparr>"
      by (auto simp: changed_self)
    from ch [unfolded eq] have at: "k = k0 \<and> i = i0
        \<and> message_at (fst (add_reaction s c messageId reaction)) k i
            = react (message_at s k0 i0) reaction"
      unfolding eq by (rule changed_update_at)
    have uniq: "k' = k \<and> i' = i"
      if "changed s (fst (add_reaction s c messageId reaction)) k' i'" for k' i'
      using that at changed_update_at unfolding eq by blast
    from at have kk: "k = k0" and ii: "i = i0" by simp_all
    from at have mm: "message_at (fst (add_reaction s c messageId reaction)) k0 i0
        = react (message_at s k0 i0) reaction"
      by (simp add: kk ii)
    from fm uniq show ?thesis
      by (simp add: kk ii mm react_frame react_other)
  qed
  have a': "same_shape s (fst (mark_read s c messageId))"
    using mark_read_cases [of s c messageId]
    by (auto simp: same_shape_refl same_shape_update_at)
  have b': "first_match (messages s) messageId k i
         \<and> (\<forall>k' i'. changed s (fst (mark_read s c messageId)) k' i' \<longrightarrow> k' = k \<and> i' = i)
         \<and> (message_at (fst (mark_read s c messageId)) k i)
               \<lparr>m_readBy := m_readBy (message_at s k i)\<rparr> = message_at s k i"
    if ch: "changed s (fst (mark_read s c messageId)) k i" for k i
  proof -
    from mark_read_cases [of s c messageId] ch obtain k0 i0 u where
      fm: "first_match (messages s) messageId k0 i0"
      and eq: "fst (mark_read s c messageId)
            = s\<lparr>messages := update_at (messages s) k0 i0 (fst (read_by (message_at s k0 i0) u))\<rparr>"
      by (auto simp: changed_self)
    from ch [unfolded eq] have at: "k = k0 \<and> i = i0
        \<and> message_at (fst (mark_read s c messageId)) k i
            = fst (read_by (message_at s k0 i0) u)"
      unfolding eq by (rule changed_update_at)
    have uniq: "k' = k \<and> i' = i"
      if "changed s (fst (mark_read s c messageId)) k' i'" for k' i'
      using that at changed_update_at unfolding eq by blast
    from at have kk: "k = k0" and ii: "i = i0" by simp_all
    from at have mm: "message_at (fst (mark_read s c messageId)) k0 i0
        = fst (read_by (message_at s k0 i0) u)"
      by (simp add: kk ii)
    from fm uniq show ?thesis
      by (simp add: kk ii mm read_by_frame)
  qed
  from a b a' b' show ?thesis unfolding Let_def by blast
qed

theorem one_message_mutated_witness:
  "changed sample_state (fst (add_reaction sample_state ''s1'' 1000 ''+1'')) 0 0
   \<and> first_match (messages sample_state) 1000 0 0
   \<and> (message_at (fst (add_reaction sample_state ''s1'' 1000 ''+1'')) 0 0)
        \<lparr>m_reactions := m_reactions (message_at sample_state 0 0)\<rparr>
       = message_at sample_state 0 0"
proof -
  have ch: "changed sample_state (fst (add_reaction sample_state ''s1'' 1000 ''+1'')) 0 0"
    by (simp add: changed_def message_at_def sample_state_eq add_reaction_def react_def
        reaction_count_def js_get_def js_set_def object_prototype_keys_def Let_def)
  from one_message_mutated [of sample_state "''s1''" 1000 "''+1''"]
  have "\<forall>k i. changed sample_state (fst (add_reaction sample_state ''s1'' 1000 ''+1'')) k i \<longrightarrow>
           first_match (messages sample_state) 1000 k i
         \<and> (\<forall>k' i'. changed sample_state (fst (add_reaction sample_state ''s1'' 1000 ''+1'')) k' i'
               \<longrightarrow> k' = k \<and> i' = i)
         \<and> (message_at (fst (add_reaction sample_state ''s1'' 1000 ''+1'')) k i)
              \<lparr>m_reactions := m_reactions (message_at sample_state k i)\<rparr>
             = message_at sample_state k i
         \<and> (\<forall>r. r \<noteq> ''+1'' \<longrightarrow>
               reaction_count (message_at (fst (add_reaction sample_state ''s1'' 1000 ''+1'')) k i) r
                 = reaction_count (message_at sample_state k i) r)"
    unfolding Let_def by (rule conjunct2 [OF conjunct1])
  with ch show ?thesis by blast
qed

section \<open>Reaction counters\<close>

lemma proto_is_prototype_key: "''__proto__'' \<in> set object_prototype_keys"
  by (simp add: object_prototype_keys_def)

lemma react_count_number:
  assumes "reaction \<notin> set object_prototype_keys"
    and "reaction_count m reaction = Own (Num n)"
  shows "reaction_count (react m reaction) reaction = Own (Num (Suc n))"
proof -
  from assms(1) have ne: "reaction \<noteq> ''__proto__''"
    using proto_is_prototype_key by blast
  let ?r0 = "case m_reactions m of None \<Rightarrow> [] | Some r \<Rightarrow> r"
  have g: "js_get ?r0 reaction = Own (Num n)"
    using assms(2) by (simp add: reaction_count_def)
  show ?thesis
  proof (cases n)
    case 0
    with g ne show ?thesis
      by (simp add: react_def reaction_count_def Let_def js_set_def js_get_update_same)
  next
    case (Suc j)
    with g ne show ?thesis
      by (simp add: react_def reaction_count_def Let_def js_set_def js_get_update_same)
  qed
qed

lemma react_count_absent:
  assumes "reaction \<notin> set object_prototype_keys"
    and "reaction_count m reaction = Undefined"
  shows "reaction_count (react m reaction) reaction = Own (Num 1)"
proof -
  from assms(1) have ne: "reaction \<noteq> ''__proto__''"
    using proto_is_prototype_key by blast
  let ?r0 = "case m_reactions m of None \<Rightarrow> [] | Some r \<Rightarrow> r"
  have g: "js_get ?r0 reaction = Undefined"
    using assms(2) by (simp add: reaction_count_def)
  with ne show ?thesis
    by (simp add: react_def reaction_count_def Let_def js_set_def js_get_update_same)
qed

lemma react_count_inherited:
  assumes "reaction \<in> set object_prototype_keys" and "reaction \<noteq> ''__proto__''"
    and "reaction_count m reaction = Inherited"
  shows "reaction_count (react m reaction) reaction = Own NaN"
proof -
  let ?r0 = "case m_reactions m of None \<Rightarrow> [] | Some r \<Rightarrow> r"
  have g: "js_get ?r0 reaction = Inherited"
    using assms(3) by (simp add: reaction_count_def)
  with assms(2) show ?thesis
    by (simp add: react_def reaction_count_def Let_def js_set_def js_get_update_same)
qed

lemma upt_from_one: "[1..<Suc (Suc j)] = 1 # map Suc [1..<Suc j]"
proof -
  have "[1..<Suc (Suc j)] = 1 # [Suc 1..<Suc (Suc j)]"
    by (simp add: upt_conv_Cons)
  also have "[Suc 1..<Suc (Suc j)] = map Suc [1..<Suc j]"
    by (simp only: map_Suc_upt)
  finally show ?thesis .
qed

lemma add_reaction_step_count:
  assumes "map_of (users s) c = Some u" and "first_match (messages s) messageId k i"
    and "reaction \<notin> set object_prototype_keys"
    and "reaction_count (message_at s k i) reaction = Own (Num n)
         \<or> n = 0 \<and> reaction_count (message_at s k i) reaction = Undefined"
  shows "\<exists>s1. add_reaction s c messageId reaction
             = (s1, [Emit ToAll (Reaction_added messageId reaction (Own (Num (Suc n))))])
           \<and> map_of (users s1) c = Some u \<and> first_match (messages s1) messageId k i
           \<and> reaction_count (message_at s1 k i) reaction = Own (Num (Suc n))"
proof -
  let ?m1 = "react (message_at s k i) reaction"
  let ?s1 = "s\<lparr>messages := update_at (messages s) k i ?m1\<rparr>"
  have cnt: "reaction_count ?m1 reaction = Own (Num (Suc n))"
    using assms(4) react_count_number [OF assms(3)] react_count_absent [OF assms(3)]
    by auto
  have k: "k < length (messages s)" and i: "i < length (snd (messages s ! k))"
    and id: "m_id (message_at s k i) = messageId"
    using assms(2) by (simp_all add: first_match_def message_at_def)
  have 1: "add_reaction s c messageId reaction
             = (?s1, [Emit ToAll (Reaction_added messageId reaction (Own (Num (Suc n))))])"
    using add_reaction_found [OF assms(1,2), of reaction] by (simp only: cnt)
  have 2: "map_of (users ?s1) c = Some u" using assms(1) by simp
  have "m_id ?m1 = messageId" using id by (simp only: react_id)
  from first_match_update [OF assms(2) this]
  have 3: "first_match (messages ?s1) messageId k i" by (simp add: update_at_def)
  have 4: "reaction_count (message_at ?s1 k i) reaction = Own (Num (Suc n))"
    using cnt by (simp add: message_at_update_at [OF k i])
  from 1 2 3 4 show ?thesis by blast
qed

lemma add_reaction_counts:
  assumes "map_of (users s) c = Some u" and "first_match (messages s) messageId k i"
    and "reaction \<notin> set object_prototype_keys"
    and "reaction_count (message_at s k i) reaction = Own (Num n)
         \<or> n = 0 \<and> reaction_count (message_at s k i) reaction = Undefined"
  shows "\<exists>s'. run s (replicate j (On_add_reaction c messageId reaction))
           = Inr (s', map (\<lambda>t. Emit ToAll (Reaction_added messageId reaction (Own (Num (n + t)))))
                        [1..<Suc j])"
  using assms
proof (induction j arbitrary: s n)
  case 0
  then show ?case by simp
next
  case (Suc j)
  from add_reaction_step_count [OF Suc.prems] obtain s1 where
    st: "add_reaction s c messageId reaction
           = (s1, [Emit ToAll (Reaction_added messageId reaction (Own (Num (Suc n))))])"
    and u1: "map_of (users s1) c = Some u" and f1: "first_match (messages s1) messageId k i"
    and c1: "reaction_count (message_at s1 k i) reaction = Own (Num (Suc n))"
    by blast
  from c1 have c1': "reaction_count (message_at s1 k i) reaction = Own (Num (Suc n))
         \<or> Suc n = 0 \<and> reaction_count (message_at s1 k i) reaction = Undefined"
    by simp
  from Suc.IH [OF u1 f1 Suc.prems(3) c1'] obtain s' where
    r: "run s1 (replicate j (On_add_reaction c messageId reaction))
           = Inr (s', map (\<lambda>t. Emit ToAll (Reaction_added messageId reaction (Own (Num (Suc n + t)))))
                        [1..<Suc j])"
    by blast
  have "run s (replicate (Suc j) (On_add_reaction c messageId reaction))
      = Inr (s', Emit ToAll (Reaction_added messageId reaction (Own (Num (Suc n))))
               # map (\<lambda>t. Emit ToAll (Reaction_added messageId reaction (Own (Num (Suc n + t)))))
                        [1..<Suc j])"
    using st r by simp
  also have "Emit ToAll (Reaction_added messageId reaction (Own (Num (Suc n))))
               # map (\<lambda>t. Emit ToAll (Reaction_added messageId reaction (Own (Num (Suc n + t)))))
                        [1..<Suc j]
      = map (\<lambda>t. Emit ToAll (Reaction_added messageId reaction (Own (Num (n + t)))))
                        [1..<Suc (Suc j)]"
    unfolding upt_from_one by (simp add: comp_def)
  finally show ?case by blast
qed

text \<open>
  C7.  In the sample state \<open>alice\<close> reacts twice to her message with the symbol
  \<open>constructor\<close>.  The freshly created reaction table inherits a member of that name, which
  is truthy, so the counter is not initialised to 0 and the increment yields \<open>NaN\<close>: the
  two broadcasts carry the counts \<open>NaN\<close> and 1.
\<close>

theorem reaction_named_like_prototype_member:
  "\<exists>s. run sample_state
          [On_add_reaction ''s1'' 1000 ''constructor'',
           On_add_reaction ''s1'' 1000 ''constructor'']
        = Inr (s, [Emit ToAll (Reaction_added 1000 ''constructor'' (Own NaN)),
                   Emit ToAll (Reaction_added 1000 ''constructor'' (Own (Num 1)))])"
  by (simp add: sample_state_eq add_reaction_def react_def reaction_count_def js_get_def
      js_set_def object_prototype_keys_def Let_def)

section \<open>An invariant of the reachable states\<close>

lemma list_all_update:
  "list_all P al \<Longrightarrow> P (k, v) \<Longrightarrow> list_all P (AList.update k v al)"
  by (induction al) auto

lemma js_get_Own_key:
  assumes "js_get al k = Own v"
  shows "k \<in> set (map fst al) \<and> (k, v) \<in> set al"
proof -
  from assms have "map_of al k = Some v"
    by (simp add: js_get_def split: option.splits if_splits)
  then have "(k, v) \<in> set al" by (rule map_of_SomeD)
  then show ?thesis by force
qed

lemma append_log_length: "length log \<le> 100 \<Longrightarrow> length (append_log log m) \<le> 100"
  by (simp add: append_log_drop)

lemma log_bound_append:
  assumes "log_bound s" and "js_get (messages s) room = Own log"
  shows "log_bound (s\<lparr>messages := AList.update room (append_log log m) (messages s)\<rparr>)"
proof -
  from js_get_Own_key [OF assms(2)] have key: "room \<in> set (map fst (messages s))"
    and mem: "(room, log) \<in> set (messages s)" by simp_all
  from assms(1) mem have "length log \<le> 100"
    by (auto simp: log_bound_def list_all_iff)
  then have "length (append_log log m) \<le> 100" by (rule append_log_length)
  then have "list_all (\<lambda>p. length (snd p) \<le> 100)
               (AList.update room (append_log log m) (messages s))"
    using assms(1) by (intro list_all_update) (simp_all add: log_bound_def)
  moreover have "map fst (AList.update room (append_log log m) (messages s))
      = map fst (messages s)"
    using key by (simp only: update_keys if_True)
  then have "map fst (AList.update room (append_log log m) (messages s)) = rooms"
    using assms(1) by (simp only: log_bound_def)
  ultimately show ?thesis by (simp add: log_bound_def)
qed

lemma log_bound_same_shape: "log_bound s \<Longrightarrow> same_shape s s' \<Longrightarrow> log_bound s'"
proof -
  assume b: "log_bound s" and sh: "same_shape s s'"
  have "list_all (\<lambda>p. length (snd p) \<le> 100) (messages s')
      \<longleftrightarrow> list_all (\<lambda>n. n \<le> 100) (map (\<lambda>p. length (snd p)) (messages s'))"
    by (simp add: list_all_iff)
  also have "\<dots> \<longleftrightarrow> list_all (\<lambda>n. n \<le> 100) (map (\<lambda>p. length (snd p)) (messages s))"
    using sh by (simp only: same_shape_def)
  also have "\<dots> \<longleftrightarrow> list_all (\<lambda>p. length (snd p) \<le> 100) (messages s)"
    by (simp add: list_all_iff)
  finally show ?thesis using b sh by (simp add: log_bound_def same_shape_def)
qed

lemma log_bound_init: "log_bound init"
  by (simp add: log_bound_def init_def rooms_def)

lemma log_bound_step:
  assumes "log_bound s" and "step s e = Inr (s', out)"
  shows "log_bound s'"
proof (cases e)
  case (On_user_join c name)
  with assms show ?thesis by (auto simp: user_join_def Let_def log_bound_def)
next
  case (On_send_message c d clk cb)
  with assms show ?thesis
    by (auto simp: send_message_def Let_def log_bound_append split: js_prop.splits)
next
  case (On_typing c d)
  with assms show ?thesis
    by (auto simp: typing_def Let_def log_bound_def split: option.splits)
next
  case (On_private_message c d clk cb)
  with assms show ?thesis by (auto simp: private_message_def Let_def)
next
  case (On_join_room c r)
  with assms show ?thesis
    by (auto simp: join_room_def Let_def log_bound_def split: option.splits)
next
  case (On_send_file c d clk)
  with assms show ?thesis
    by (auto simp: send_file_def Let_def log_bound_append split: js_prop.splits)
next
  case (On_add_reaction c i r)
  with assms have "s' = fst (add_reaction s c i r)" by auto
  moreover have "same_shape s (fst (add_reaction s c i r))"
    using add_reaction_cases [of s c i r] by (auto simp: same_shape_refl same_shape_update_at)
  ultimately show ?thesis using assms(1) by (auto intro: log_bound_same_shape)
next
  case (On_mark_read c i)
  with assms have "s' = fst (mark_read s c i)" by auto
  moreover have "same_shape s (fst (mark_read s c i))"
    using mark_read_cases [of s c i] by (auto simp: same_shape_refl same_shape_update_at)
  ultimately show ?thesis using assms(1) by (auto intro: log_bound_same_shape)
next
  case (On_load_messages c r l f cb)
  with assms show ?thesis
    by (auto simp: load_messages_def Let_def split: js_prop.splits if_splits)
next
  case (On_disconnect c)
  with assms show ?thesis by (auto simp: disconnect_def Let_def log_bound_def)
qed

lemma log_bound_run: "log_bound s \<Longrightarrow> run s evs = Inr (s', out) \<Longrightarrow> log_bound s'"
proof (induction evs arbitrary: s out)
  case Nil
  then show ?case by simp
next
  case (Cons e evs)
  from Cons.prems(2) obtain s1 out1 out2 where
    st: "step s e = Inr (s1, out1)" and r: "run s1 evs = Inr (s', out2)"
    by (auto split: sum.splits prod.splits)
  from Cons.IH [OF log_bound_step [OF Cons.prems(1) st] r] show ?case .
qed

lemma reachable_log_bound:
  assumes "run init evs = Inr (s, out)"
  shows "map fst (messages s) = rooms"
    and "js_get (messages s) room = Own log \<Longrightarrow> length log \<le> 100"
proof -
  have b: "log_bound s" using log_bound_init assms by (rule log_bound_run)
  then show "map fst (messages s) = rooms" by (simp add: log_bound_def)
  assume "js_get (messages s) room = Own log"
  from js_get_Own_key [OF this] b show "length log \<le> 100"
    by (auto simp: log_bound_def list_all_iff)
qed


section \<open>Who receives a private message\<close>

lemma overheard_run:
  "run init overheard_events =
     Inr (\<lparr>users = [(''s1'', alice),
                     (''s2'', \<lparr>u_username = ''bob'', u_id = ''s2'', u_currentRoom = ''general''\<rparr>),
                     (''s3'', \<lparr>u_username = ''carol'', u_id = ''s3'', u_currentRoom = ''s2''\<rparr>)],
           messages = messages sample_state,
           typingUsers = []\<rparr>,
          [Join ''s1'' ''general'',
           Emit ToAll (User_list [alice]),
           Emit ToAll (User_joined ''alice'' ''s1''),
           Join ''s2'' ''general'',
           Emit ToAll (User_list [alice,
             \<lparr>u_username = ''bob'', u_id = ''s2'', u_currentRoom = ''general''\<rparr>]),
           Emit ToAll (User_joined ''bob'' ''s2''),
           Join ''s3'' ''general'',
           Emit ToAll (User_list [alice,
             \<lparr>u_username = ''bob'', u_id = ''s2'', u_currentRoom = ''general''\<rparr>,
             \<lparr>u_username = ''carol'', u_id = ''s3'', u_currentRoom = ''general''\<rparr>]),
           Emit ToAll (User_joined ''carol'' ''s3''),
           Leave ''s3'' ''general'',
           Join ''s3'' ''s2'',
           Emit (ToSocket ''s3'') (Room_messages []),
           Callback (MessageAck True 1000),
           Emit (ToRoomExcept ''general'' ''s1'') (Receive_message (message_at sample_state 0 0))])"
  by (simp add: overheard_events_def sample_state_eq message_at_def user_join_def join_room_def
      send_message_def Let_def js_get_def init_def rooms_def room_or_default_def append_log_def
      text_message_def sender_name_def alice_def object_prototype_keys_def)

lemma overheard_table_eq:
  "overheard_table =
     [(''s3'', ''s2''), (''s2'', ''general''), (''s1'', ''general''),
      (''s1'', ''s1''), (''s2'', ''s2''), (''s3'', ''s3'')]"
  by (simp add: overheard_table_def overheard_run own_rooms_def)

text \<open>
  C8.  In the sample run the room named by \<open>bob\<close>'s socket id holds \<open>bob\<close>'s socket and
  \<open>carol\<close>'s.  The private message that \<open>alice\<close> sends to \<open>bob\<close> is therefore delivered to
  \<open>carol\<close>'s socket as well, and the acknowledgement carries the id 1000, which a message in
  a room log already has.
\<close>

theorem private_message_overheard:
  "members_in overheard_table ''s2'' = {''s2'', ''s3''}
   \<and> delivered (members_in overheard_table) {''s1'', ''s2'', ''s3''} ''s3''
         (snd (private_message overheard_state ''s1'' secret \<lparr>now = 1000, iso = ''t''\<rparr> True))
       = [Private_message
            (private_message_data overheard_state ''s1'' secret \<lparr>now = 1000, iso = ''t''\<rparr>)]
   \<and> acks (snd (private_message overheard_state ''s1'' secret \<lparr>now = 1000, iso = ''t''\<rparr> True))
       = [MessageAck True 1000]
   \<and> present (messages overheard_state) 1000"
proof -
  have st: "messages overheard_state = messages sample_state"
    by (simp add: overheard_state_def overheard_run)
  have m: "members_in overheard_table ''s2'' = {''s2'', ''s3''}"
    by (auto simp: overheard_table_eq members_in_def)
  have d: "delivered (members_in overheard_table) {''s1'', ''s2'', ''s3''} ''s3''
         (snd (private_message overheard_state ''s1'' secret \<lparr>now = 1000, iso = ''t''\<rparr> True))
       = [Private_message
            (private_message_data overheard_state ''s1'' secret \<lparr>now = 1000, iso = ''t''\<rparr>)]"
    by (simp add: private_message_def Let_def receivers_def m secret_def)
  have a: "acks (snd (private_message overheard_state ''s1'' secret \<lparr>now = 1000, iso = ''t''\<rparr> True))
       = [MessageAck True 1000]"
    by (simp add: private_message_def Let_def)
  have p: "present (messages overheard_state) 1000"
    by (simp only: st sample_state_present)
  from m d a p show ?thesis by blast
qed

end
